theory Spec2Isabelle
  imports
    Main
    "HOL-Library.Char_ord"
    "HOL-Library.List_Lexorder"
    "HOL-Library.AList"
    "HOL-Library.Word"
begin

unbundle bit_operations_syntax

section \<open>Strings as Python sees them\<close>

text \<open>
  The script \<^verbatim>\<open>scripts/build_doctor_directory.py\<close> works on Python \<^verbatim>\<open>str\<close> values.
  A string is modelled as a \<^typ>\<open>string\<close>, each \<^typ>\<open>char\<close> being read as the code point
  of the same number (U+0000 to U+00FF). The character classes below are Python's own
  on that range: \<^verbatim>\<open>str.split()\<close> and the pattern \<^verbatim>\<open>\s\<close> use the same whitespace
  test, \<^verbatim>\<open>\d\<close> is the decimal digits, \<^verbatim>\<open>str.lower()\<close> maps each upper-case letter to the
  letter 32 code points above it. Comparison of strings is lexicographic on code points
  (the order of \<open>List_Lexorder\<close> over that of \<open>Char_ord\<close>).
\<close>

definition isspace :: "char \<Rightarrow> bool" where
  "isspace c = ((of_char c :: nat) \<in> {9, 10, 11, 12, 13, 28, 29, 30, 31, 32, 133, 160})"

definition isdecimal :: "char \<Rightarrow> bool" where
  "isdecimal c = (48 \<le> (of_char c :: nat) \<and> (of_char c :: nat) \<le> 57)"

definition lower_char :: "char \<Rightarrow> char" where
  "lower_char c =
     (let n = (of_char c :: nat)
      in if (65 \<le> n \<and> n \<le> 90) \<or> (192 \<le> n \<and> n \<le> 222 \<and> n \<noteq> 215)
         then char_of (n + 32) else c)"

definition lower :: "string \<Rightarrow> string" where
  "lower s = map lower_char s"

text \<open>
  \<^verbatim>\<open>re.split(r"[...]+", s)\<close> for a character class: the pieces between the maximal runs
  of separator characters, an empty piece included where the string starts or ends with
  a run. The flag says that the character before was a separator, so that a run opens
  one piece only.
\<close>

fun split_runs :: "(char \<Rightarrow> bool) \<Rightarrow> bool \<Rightarrow> string \<Rightarrow> string list" where
  "split_runs p b [] = [[]]"
| "split_runs p b (c # cs) =
     (if p c then (if b then split_runs p True cs else [] # split_runs p True cs)
      else (case split_runs p False cs of
              [] \<Rightarrow> [[c]]
            | t # ts \<Rightarrow> (c # t) # ts))"

definition re_split :: "(char \<Rightarrow> bool) \<Rightarrow> string \<Rightarrow> string list" where
  "re_split p s = split_runs p False s"

text \<open>\<^verbatim>\<open>s.split()\<close>: the maximal runs of characters that are not whitespace.\<close>

definition str_split :: "string \<Rightarrow> string list" where
  "str_split s = filter (\<lambda>t. t \<noteq> []) (re_split isspace s)"

text \<open>\<^verbatim>\<open>sep.join(xs)\<close>.\<close>

fun join :: "string \<Rightarrow> string list \<Rightarrow> string" where
  "join sep [] = []"
| "join sep [x] = x"
| "join sep (x # y # ys) = x @ sep @ join sep (y # ys)"

text \<open>\<^verbatim>\<open>s.strip(chars)\<close>: drops the characters of \<open>chars\<close> from both ends.\<close>

definition strip :: "string \<Rightarrow> string \<Rightarrow> string" where
  "strip chars s =
     rev (dropWhile (\<lambda>c. c \<in> set chars) (rev (dropWhile (\<lambda>c. c \<in> set chars) s)))"

text \<open>\<^verbatim>\<open>k in s\<close> for strings: \<open>k\<close> occurs in \<open>s\<close> as a contiguous substring.\<close>

fun is_prefix :: "string \<Rightarrow> string \<Rightarrow> bool" where
  "is_prefix [] s = True"
| "is_prefix (k # ks) [] = False"
| "is_prefix (k # ks) (c # cs) = (k = c \<and> is_prefix ks cs)"

fun contains :: "string \<Rightarrow> string \<Rightarrow> bool" where
  "contains [] k = (k = [])"
| "contains (c # cs) k = (is_prefix k (c # cs) \<or> contains cs k)"

section \<open>The field normaliser\<close>

definition normalize_whitespace :: "string \<Rightarrow> string" where
  "normalize_whitespace v = join '' '' (str_split v)"

definition split_multi_value :: "string \<Rightarrow> string list" where
  "split_multi_value v =
     (if v = [] then []
      else let parts = re_split (\<lambda>c. c = CHR '';'' \<or> c = CHR 0x0A) v
           in map (\<lambda>part. normalize_whitespace (strip '' ;'' part))
                  (filter (\<lambda>part. strip '' ;'' part \<noteq> []) parts))"

section \<open>The row classifier\<close>

definition BLOCK_KEYWORDS :: "string list" where
  "BLOCK_KEYWORDS =
     [''hospital'', ''medical'', ''clinic'', ''company'', ''co.'', ''est'', ''contracting'',
      ''insurance'', ''drops'', ''tablet'', ''capsule'', ''solution'', ''syrup'', ''pharma'',
      ''laboratory'', ''lab'', ''finance'', ''statement'', ''analysis'', ''services'',
      ''provider'', ''bupa'', ''tawnia'', ''claim'', ''eligibility'', ''response'', ''direct'',
      ''copy'']"

definition is_separator :: "char \<Rightarrow> bool" where
  "is_separator c = (c = CHR ''-'' \<or> c = CHR '','' \<or> isspace c)"

definition looks_like_doctor :: "string \<Rightarrow> bool" where
  "looks_like_doctor name =
     (if name = [] then False
      else let normalized = normalize_whitespace name;
               low = lower normalized
           in if low \<in> set [''doctor name'', ''name'', ''(blank)''] then False
              else if list_ex (\<lambda>keyword. contains low keyword) BLOCK_KEYWORDS then False
              else if list_ex isdecimal normalized then False
              else let tokens = filter (\<lambda>token. token \<noteq> []) (re_split is_separator normalized)
                   in 2 \<le> length tokens)"

section \<open>The specialty inferrer\<close>

definition SPECIALTY_KEYWORDS :: "(string \<times> string) list" where
  "SPECIALTY_KEYWORDS =
     [(''cardio'', ''Cardiology''),
      (''derma'', ''Dermatology''),
      (''dermato'', ''Dermatology''),
      (''neuro'', ''Neurology''),
      (''nephro'', ''Nephrology''),
      (''pulmo'', ''Pulmonology''),
      (''gastro'', ''Gastroenterology''),
      (''endo'', ''Endocrinology''),
      (''onco'', ''Oncology''),
      (''pedi'', ''Pediatrics''),
      (''ortho'', ''Orthopedics''),
      (''psy'', ''Psychiatry''),
      (''ophth'', ''Ophthalmology''),
      (''ent'', ''Otolaryngology''),
      (''uro'', ''Urology''),
      (''obst'', ''Obstetrics & Gynecology''),
      (''gyn'', ''Obstetrics & Gynecology'')]"

text \<open>The \<^verbatim>\<open>for keyword, specialty in ...\<close> loop, which returns at the first hit.\<close>

fun scan_keywords :: "(string \<times> string) list \<Rightarrow> string \<Rightarrow> string" where
  "scan_keywords [] combined = ''General Practice''"
| "scan_keywords ((keyword, specialty) # rest) combined =
     (if contains combined keyword then specialty else scan_keywords rest combined)"

definition combine :: "string list \<Rightarrow> string" where
  "combine fields = join '' '' (map lower (filter (\<lambda>field. field \<noteq> []) fields))"

definition infer_specialty :: "string list \<Rightarrow> string" where
  "infer_specialty fields = scan_keywords SPECIALTY_KEYWORDS (combine fields)"

section \<open>The digest of the identity key\<close>

text \<open>
  \<^verbatim>\<open>hashlib.sha1(s.encode("utf-8")).hexdigest()\<close>, after FIPS 180-4: the message is padded
  to a multiple of 64 bytes, each block is expanded to 80 words and run through 80
  rounds, and the five state words are printed as 40 lower-case hexadecimal digits.
\<close>

definition utf8_char :: "char \<Rightarrow> 8 word list" where
  "utf8_char c =
     (let w = (of_char c :: 8 word)
      in if w < 0x80 then [w]
         else [0xC0 OR drop_bit 6 w, 0x80 OR (w AND 0x3F)])"

definition encode_utf8 :: "string \<Rightarrow> 8 word list" where
  "encode_utf8 s = concat (map utf8_char s)"

definition be64 :: "64 word \<Rightarrow> 8 word list" where
  "be64 w = map (\<lambda>i. ucast (drop_bit (8 * (7 - i)) w)) [0..<8]"

definition sha1_pad :: "8 word list \<Rightarrow> 8 word list" where
  "sha1_pad m =
     (let l = length m
      in m @ [0x80] @ replicate ((119 - l mod 64) mod 64) 0 @ be64 (push_bit 3 (of_nat l)))"

fun chop :: "nat \<Rightarrow> 'a list \<Rightarrow> 'a list list" where
  "chop 0 xs = []"
| "chop n [] = []"
| "chop n xs = take n xs # chop n (drop n xs)"

definition be32 :: "8 word list \<Rightarrow> 32 word" where
  "be32 bs = foldl (\<lambda>w b. push_bit 8 w OR ucast b) 0 bs"

fun sha1_schedule :: "nat \<Rightarrow> 32 word list \<Rightarrow> 32 word list" where
  "sha1_schedule 0 w = w"
| "sha1_schedule (Suc n) w =
     (let l = length w
      in sha1_schedule n
           (w @ [word_rotl 1 (w ! (l - 3) XOR w ! (l - 8) XOR w ! (l - 14) XOR w ! (l - 16))]))"

type_synonym sha1_state = "32 word \<times> 32 word \<times> 32 word \<times> 32 word \<times> 32 word"

definition sha1_round :: "sha1_state \<Rightarrow> nat \<times> 32 word \<Rightarrow> sha1_state" where
  "sha1_round st tw =
     (case st of (a, b, c, d, e) \<Rightarrow> case tw of (t, w) \<Rightarrow>
        let f = (if t < 20 then (b AND c) OR (NOT b AND d)
                 else if t < 40 then b XOR c XOR d
                 else if t < 60 then (b AND c) OR (b AND d) OR (c AND d)
                 else b XOR c XOR d);
            k = (if t < 20 then 0x5A827999
                 else if t < 40 then 0x6ED9EBA1
                 else if t < 60 then 0x8F1BBCDC
                 else 0xCA62C1D6)
        in (word_rotl 5 a + f + e + k + w, a, word_rotl 30 b, c, d))"

definition sha1_block :: "sha1_state \<Rightarrow> 8 word list \<Rightarrow> sha1_state" where
  "sha1_block h blk =
     (let w = sha1_schedule 64 (map be32 (chop 4 blk))
      in case h of (h0, h1, h2, h3, h4) \<Rightarrow>
           case foldl sha1_round h (zip [0..<80] w) of (a, b, c, d, e) \<Rightarrow>
             (h0 + a, h1 + b, h2 + c, h3 + d, h4 + e))"

definition sha1 :: "8 word list \<Rightarrow> 32 word list" where
  "sha1 m =
     (case foldl sha1_block (0x67452301, 0xEFCDAB89, 0x98BADCFE, 0x10325476, 0xC3D2E1F0)
             (chop 64 (sha1_pad m)) of
        (h0, h1, h2, h3, h4) \<Rightarrow> [h0, h1, h2, h3, h4])"

definition hex_digit :: "nat \<Rightarrow> char" where
  "hex_digit n = ''0123456789abcdef'' ! (n mod 16)"

definition hex32 :: "32 word \<Rightarrow> string" where
  "hex32 w = map (\<lambda>i. hex_digit (unat (drop_bit (4 * (7 - i)) w AND 0xF))) [0..<8]"

definition sha1_hexdigest :: "string \<Rightarrow> string" where
  "sha1_hexdigest s = concat (map hex32 (sha1 (encode_utf8 s)))"

section \<open>Rows, entries and the scan\<close>

text \<open>
  What the spreadsheet library hands over: a cell value is \<^verbatim>\<open>None\<close>, a \<^verbatim>\<open>str\<close>, or a
  value of another type (number, date, boolean), of which the script observes only
  \<^verbatim>\<open>str(value)\<close> and the truth value. An element of a row is a cell or a false object
  (\<open>None\<close> below).
\<close>

datatype py_value = PyNone | PyStr string | PyOther string bool

fun py_str :: "py_value \<Rightarrow> string" where
  "py_str PyNone = ''None''"
| "py_str (PyStr s) = s"
| "py_str (PyOther s b) = s"

fun truthy :: "py_value \<Rightarrow> bool" where
  "truthy PyNone = False"
| "truthy (PyStr s) = (s \<noteq> [])"
| "truthy (PyOther s b) = b"

type_synonym cell = "py_value option"
type_synonym row = "cell list"
type_synonym table = "row list"
type_synonym document = "table list list"

datatype error = FileNotFoundError | IndexError | ValueError

record columns =
  name_idx :: nat
  contact_idx :: nat
  cred_idx :: nat
  reg_idx :: nat
  source_idx :: nat

record entry =
  id_field :: string
  name :: string
  specialty :: string
  contacts :: "string list"
  credentials :: "string list"
  registrationNumbers :: "string list"
  sourceFile :: string

text \<open>The dictionary \<^verbatim>\<open>entries\<close>, in insertion order.\<close>

type_synonym entries = "(string \<times> entry) list"

text \<open>
  \<^verbatim>\<open>idx < len(row) and row[idx] and row[idx].value\<close>, and then \<^verbatim>\<open>str(row[idx].value)\<close>.
\<close>

definition text_at :: "nat \<Rightarrow> row \<Rightarrow> string option" where
  "text_at idx r =
     (if idx < length r
      then (case r ! idx of
              None \<Rightarrow> None
            | Some v \<Rightarrow> if truthy v then Some (py_str v) else None)
      else None)"

text \<open>The local variables of the loop body once a row has passed the classifier.\<close>

record parsed =
  p_name :: string
  p_contacts :: "string list"
  p_credentials :: "string list"
  p_reg_numbers :: "string list"
  p_specialty :: string
  p_source_value :: string

text \<open>Lines 122 to 148; \<open>None\<close> is \<^verbatim>\<open>continue\<close>.\<close>

definition parse_row :: "columns \<Rightarrow> row \<Rightarrow> parsed option" where
  "parse_row cols r =
     (if name_idx cols \<ge> length r then None
      else case r ! name_idx cols of
             None \<Rightarrow> None
           | Some PyNone \<Rightarrow> None
           | Some v \<Rightarrow>
               let nm = normalize_whitespace (py_str v)
               in if \<not> looks_like_doctor nm then None
                  else let contact_value = (case text_at (contact_idx cols) r of
                                              Some s \<Rightarrow> normalize_whitespace s | None \<Rightarrow> []);
                           cred_value = (case text_at (cred_idx cols) r of
                                           Some s \<Rightarrow> normalize_whitespace s | None \<Rightarrow> []);
                           reg_value = (case text_at (reg_idx cols) r of
                                          Some s \<Rightarrow> normalize_whitespace s | None \<Rightarrow> []);
                           source_value = (case text_at (source_idx cols) r of
                                             Some s \<Rightarrow> s | None \<Rightarrow> [])
                       in Some \<lparr>p_name = nm,
                                p_contacts = split_multi_value contact_value,
                                p_credentials = split_multi_value cred_value,
                                p_reg_numbers = split_multi_value reg_value,
                                p_specialty = infer_specialty [cred_value, reg_value],
                                p_source_value = source_value\<rparr>)"

definition key_basis :: "parsed \<Rightarrow> string" where
  "key_basis p =
     lower (p_name p) @ ''|'' @
     (case p_reg_numbers p of [] \<Rightarrow> lower (p_source_value p) | first # _ \<Rightarrow> first)"

definition entry_id :: "parsed \<Rightarrow> string" where
  "entry_id p = take 12 (sha1_hexdigest (key_basis p))"

text \<open>\<^verbatim>\<open>sorted({*xs, *ys})\<close>.\<close>

definition sorted_union :: "string list \<Rightarrow> string list \<Rightarrow> string list" where
  "sorted_union xs ys = sort (remdups (xs @ ys))"

text \<open>
  Lines 153 to 168. \<^const>\<open>AList.update\<close> is the assignment \<^verbatim>\<open>entries[k] = v\<close>: it
  replaces the value where the key is, and appends the pair where it is not.
\<close>

definition merge_row :: "entries \<Rightarrow> parsed \<Rightarrow> entries" where
  "merge_row es p =
     (case map_of es (entry_id p) of
        Some existing \<Rightarrow>
          AList.update (entry_id p)
            (existing\<lparr>contacts := sorted_union (contacts existing) (p_contacts p),
                      credentials := sorted_union (credentials existing) (p_credentials p),
                      registrationNumbers :=
                        sorted_union (registrationNumbers existing) (p_reg_numbers p)\<rparr>) es
      | None \<Rightarrow>
          AList.update (entry_id p)
            \<lparr>id_field = entry_id p,
             name = p_name p,
             specialty = p_specialty p,
             contacts = p_contacts p,
             credentials = p_credentials p,
             registrationNumbers = p_reg_numbers p,
             sourceFile = p_source_value p\<rparr> es)"

definition process_row :: "columns \<Rightarrow> entries \<Rightarrow> row \<Rightarrow> entries" where
  "process_row cols es r = (case parse_row cols r of None \<Rightarrow> es | Some p \<Rightarrow> merge_row es p)"

definition scan_rows :: "columns \<Rightarrow> row list \<Rightarrow> entries" where
  "scan_rows cols rs = foldl (process_row cols) [] rs"

section \<open>The whole run\<close>

text \<open>\<^verbatim>\<open>xs.index(x)\<close>, which raises \<^verbatim>\<open>ValueError\<close> where \<open>x\<close> does not occur.\<close>

fun index_of :: "'a \<Rightarrow> 'a list \<Rightarrow> error + nat" where
  "index_of x [] = Inl ValueError"
| "index_of x (y # ys) =
     (if x = y then Inr 0
      else case index_of x ys of Inl e \<Rightarrow> Inl e | Inr i \<Rightarrow> Inr (Suc i))"

text \<open>\<^verbatim>\<open>doc.sheets[0].tables[0].rows()\<close>.\<close>

fun load_rows :: "document \<Rightarrow> error + row list" where
  "load_rows [] = Inl IndexError"
| "load_rows ([] # _) = Inl IndexError"
| "load_rows ((t # _) # _) = Inr t"

definition header_values :: "row \<Rightarrow> py_value list" where
  "header_values r = map (\<lambda>c. case c of None \<Rightarrow> PyStr [] | Some v \<Rightarrow> v) r"

definition resolve_columns :: "py_value list \<Rightarrow> error + columns" where
  "resolve_columns headers =
     (case index_of (PyStr ''Doctor Name'') headers of Inl e \<Rightarrow> Inl e | Inr n \<Rightarrow>
     (case index_of (PyStr ''Contact Information'') headers of Inl e \<Rightarrow> Inl e | Inr c \<Rightarrow>
     (case index_of (PyStr ''Credentials/Specialty'') headers of Inl e \<Rightarrow> Inl e | Inr k \<Rightarrow>
     (case index_of (PyStr ''Registration Numbers'') headers of Inl e \<Rightarrow> Inl e | Inr g \<Rightarrow>
     (case index_of (PyStr ''Source File'') headers of Inl e \<Rightarrow> Inl e | Inr s \<Rightarrow>
        Inr \<lparr>name_idx = n, contact_idx = c, cred_idx = k, reg_idx = g, source_idx = s\<rparr>)))))"

text \<open>
  The two paths the script touches: the spreadsheet at \<^verbatim>\<open>NUMBERS_PATH\<close> (\<open>None\<close> where
  the file does not exist) and the directory at \<^verbatim>\<open>OUTPUT_PATH\<close> (\<open>None\<close> where nothing
  has been written there), whose content is the list that \<^verbatim>\<open>json.dump\<close> receives.
\<close>

record world =
  numbers_file :: "document option"
  output_file :: "entry list option"

text \<open>
  The result is the raised error, or the number of entries of the printed summary,
  together with the files as the run leaves them.
\<close>

definition build_directory :: "world \<Rightarrow> (error + nat) \<times> world" where
  "build_directory w =
     (case numbers_file w of
        None \<Rightarrow> (Inl FileNotFoundError, w)
      | Some doc \<Rightarrow>
          (case load_rows doc of
             Inl e \<Rightarrow> (Inl e, w)
           | Inr [] \<Rightarrow> (Inl IndexError, w)
           | Inr (header # rest) \<Rightarrow>
               (case resolve_columns (header_values header) of
                  Inl e \<Rightarrow> (Inl e, w)
                | Inr cols \<Rightarrow>
                    let es = scan_rows cols rest
                    in (Inr (length es), w\<lparr>output_file := Some (map snd es)\<rparr>))))"

text \<open>The invariant of the scan that links an entry to its key.\<close>

definition ids_are_keys :: "entries \<Rightarrow> bool" where
  "ids_are_keys es = (\<forall>k e. map_of es k = Some e \<longrightarrow> id_field e = k)"

section \<open>A sample table\<close>

text \<open>
  A header row in the order the script expects, the column indices it resolves to, and
  three rows that pass the classifier, with the local variables the loop body computes
  for each. Rows \<open>row_a\<close> and \<open>row_b\<close> have the same identity key.
\<close>

definition example_header :: row where
  "example_header =
     map (Some \<circ> PyStr)
       [''Doctor Name'', ''Contact Information'', ''Credentials/Specialty'',
        ''Registration Numbers'', ''Source File'']"

definition example_columns :: columns where
  "example_columns =
     \<lparr>name_idx = 0, contact_idx = 1, cred_idx = 2, reg_idx = 3, source_idx = 4\<rparr>"

definition row_a :: row where
  "row_a = map (Some \<circ> PyStr) [''John Doe'', ''a@x.com'', ''Cardiology'', ''R1'', ''f1.csv'']"

definition row_b :: row where
  "row_b = map (Some \<circ> PyStr) [''JOHN DOE'', ''b@x.com'', ''Dermatology'', ''R1'', ''f2.csv'']"

definition row_c :: row where
  "row_c = map (Some \<circ> PyStr) [''Jane Smith'', ''b; a; b'', ''MD'', ''R2'', ''f3.csv'']"

definition parsed_a :: parsed where
  "parsed_a =
     \<lparr>p_name = ''John Doe'', p_contacts = [''a@x.com''], p_credentials = [''Cardiology''],
      p_reg_numbers = [''R1''], p_specialty = ''Cardiology'', p_source_value = ''f1.csv''\<rparr>"

definition parsed_b :: parsed where
  "parsed_b =
     \<lparr>p_name = ''JOHN DOE'', p_contacts = [''b@x.com''], p_credentials = [''Dermatology''],
      p_reg_numbers = [''R1''], p_specialty = ''Dermatology'', p_source_value = ''f2.csv''\<rparr>"

definition parsed_c :: parsed where
  "parsed_c =
     \<lparr>p_name = ''Jane Smith'', p_contacts = [''b'', ''a'', ''b''], p_credentials = [''MD''],
      p_reg_numbers = [''R2''], p_specialty = ''General Practice'', p_source_value = ''f3.csv''\<rparr>"

definition example_world :: world where
  "example_world = \<lparr>numbers_file = Some [[[example_header, row_c]]], output_file = None\<rparr>"

section \<open>Splitting and joining\<close>

lemma split_runs_not_Nil: "split_runs p b s \<noteq> []"
  by (induction s arbitrary: b) (auto split: list.splits)

lemma split_runs_pieces: "t \<in> set (split_runs p b s) \<Longrightarrow> \<forall>c\<in>set t. \<not> p c"
proof (induction s arbitrary: b t)
  case Nil
  then show ?case by simp
next
  case (Cons a s)
  show ?case
  proof (cases "p a")
    case True
    with Cons show ?thesis by (auto split: if_splits)
  next
    case False
    obtain u us where u: "split_runs p False s = u # us"
      using split_runs_not_Nil [of p False s] by (cases "split_runs p False s") auto
    have "\<forall>t'\<in>set (u # us). \<forall>c'\<in>set t'. \<not> p c'"
      using Cons.IH [of _ False] u by auto
    with Cons.prems False u show ?thesis by auto
  qed
qed

lemma split_runs_token:
  assumes "\<forall>c\<in>set t. \<not> p c" and "t \<noteq> []"
  shows "split_runs p b (t @ s) = (t @ hd (split_runs p False s)) # tl (split_runs p False s)"
  using assms
proof (induction t arbitrary: b)
  case Nil
  then show ?case by simp
next
  case (Cons a t)
  show ?case
  proof (cases "t = []")
    case True
    with Cons.prems show ?thesis
      using split_runs_not_Nil [of p False s] by (auto split: list.splits)
  next
    case False
    with Cons show ?thesis by simp
  qed
qed

lemma str_split_tokens:
  "t \<in> set (str_split s) \<Longrightarrow> t \<noteq> [] \<and> (\<forall>c\<in>set t. \<not> isspace c)"
  by (auto simp: str_split_def re_split_def dest: split_runs_pieces)

lemma isspace_space: "isspace CHR '' ''"
  by (simp add: isspace_def)

lemma split_runs_join:
  assumes "\<forall>t\<in>set ts. t \<noteq> [] \<and> (\<forall>c\<in>set t. \<not> isspace c)"
  shows "filter (\<lambda>t. t \<noteq> []) (split_runs isspace b (join '' '' ts)) = ts"
  using assms
proof (induction ts arbitrary: b)
  case Nil
  then show ?case by simp
next
  case (Cons x ts)
  have x: "\<forall>c\<in>set x. \<not> isspace c" "x \<noteq> []" using Cons.prems by auto
  show ?case
  proof (cases ts)
    case Nil
    then show ?thesis
      using split_runs_token [OF x, of b "[]"] x by simp
  next
    case (Cons y ys)
    have "filter (\<lambda>t. t \<noteq> []) (split_runs isspace True (join '' '' ts)) = ts"
      using Cons.IH Cons.prems by simp
    then show ?thesis
      using split_runs_token [OF x, of b "'' '' @ join '' '' ts"] x Cons
      by (simp add: isspace_space)
  qed
qed

lemma str_split_join:
  "\<forall>t\<in>set ts. t \<noteq> [] \<and> (\<forall>c\<in>set t. \<not> isspace c) \<Longrightarrow> str_split (join '' '' ts) = ts"
  by (simp add: str_split_def re_split_def split_runs_join)

text \<open>
  Claim C9. Normalising whitespace twice gives what normalising once gives, for every
  string.
\<close>

theorem normalize_whitespace_idempotent:
  "normalize_whitespace (normalize_whitespace s) = normalize_whitespace s"
  unfolding normalize_whitespace_def
  using str_split_join [of "str_split s"] str_split_tokens [of _ s] by auto

section \<open>Lower-casing\<close>

lemma of_char_lower_char:
  "(of_char (lower_char c) :: nat) =
     (if (65 \<le> (of_char c :: nat) \<and> (of_char c :: nat) \<le> 90) \<or>
         (192 \<le> (of_char c :: nat) \<and> (of_char c :: nat) \<le> 222 \<and> (of_char c :: nat) \<noteq> 215)
      then of_char c + 32 else of_char c)"
  by (auto simp: lower_char_def Let_def)

lemma isspace_lower_char: "isspace (lower_char c) = isspace c"
  unfolding isspace_def of_char_lower_char by auto

lemma isdecimal_lower_char: "isdecimal (lower_char c) = isdecimal c"
  unfolding isdecimal_def of_char_lower_char by auto

lemma lower_char_eq_iff:
  "(of_char d :: nat) < 65 \<Longrightarrow> lower_char c = d \<longleftrightarrow> c = d"
proof -
  assume d: "(of_char d :: nat) < 65"
  have "lower_char c = d \<longleftrightarrow> (of_char (lower_char c) :: nat) = of_char d"
    by simp
  also have "\<dots> \<longleftrightarrow> (of_char c :: nat) = of_char d"
    unfolding of_char_lower_char using d by auto
  finally show ?thesis by simp
qed

lemma is_separator_lower_char: "is_separator (lower_char c) = is_separator c"
  by (simp add: is_separator_def isspace_lower_char lower_char_eq_iff)

lemma lower_char_idem: "lower_char (lower_char c) = lower_char c"
proof -
  have "(of_char (lower_char (lower_char c)) :: nat) = of_char (lower_char c)"
    unfolding of_char_lower_char [of "lower_char c"] unfolding of_char_lower_char [of c]
    by auto
  then show ?thesis by simp
qed

lemma lower_idem: "lower (lower s) = lower s"
  by (simp add: lower_def lower_char_idem)

lemma split_runs_map:
  assumes "\<And>c. p (f c) = p c"
  shows "split_runs p b (map f s) = map (map f) (split_runs p b s)"
proof (induction s arbitrary: b)
  case Nil
  then show ?case by simp
next
  case (Cons a s)
  then show ?case
    using assms split_runs_not_Nil [of p False s]
    by (cases "split_runs p False s") auto
qed

lemma filter_nonempty_map:
  "filter (\<lambda>t. t \<noteq> []) (map (map f) ts) = map (map f) (filter (\<lambda>t. t \<noteq> []) ts)"
  by (induction ts) auto

lemma join_map: "join (map f sep) (map (map f) ts) = map f (join sep ts)"
  by (induction sep ts rule: join.induct) auto

lemma str_split_lower: "str_split (lower s) = map lower (str_split s)"
proof -
  have "split_runs isspace False (map lower_char s) =
          map (map lower_char) (split_runs isspace False s)"
    by (rule split_runs_map) (rule isspace_lower_char)
  then show ?thesis
    by (simp add: str_split_def re_split_def lower_def filter_nonempty_map)
qed

lemma lower_space: "lower '' '' = '' ''"
  by (simp add: lower_def lower_char_def Let_def)

lemma normalize_whitespace_lower:
  "normalize_whitespace (lower s) = lower (normalize_whitespace s)"
proof -
  have "join (lower '' '') (map lower (str_split s)) = lower (join '' '' (str_split s))"
    unfolding lower_def by (rule join_map)
  then show ?thesis
    by (simp add: normalize_whitespace_def str_split_lower lower_space)
qed

lemma tokens_lower:
  "filter (\<lambda>t. t \<noteq> []) (re_split is_separator (lower s)) =
     map lower (filter (\<lambda>t. t \<noteq> []) (re_split is_separator s))"
proof -
  have "split_runs is_separator False (map lower_char s) =
          map (map lower_char) (split_runs is_separator False s)"
    by (rule split_runs_map) (rule is_separator_lower_char)
  then show ?thesis
    by (simp add: re_split_def lower_def filter_nonempty_map)
qed

lemma list_ex_isdecimal_lower: "list_ex isdecimal (lower s) = list_ex isdecimal s"
  by (simp add: lower_def list_ex_iff isdecimal_lower_char)

text \<open>
  Claim C10. The verdict of the classifier does not depend on letter case: a string and
  its lower-cased form are both accepted or both rejected.
\<close>

theorem looks_like_doctor_lower: "looks_like_doctor (lower s) = looks_like_doctor s"
proof -
  have e: "lower s = [] \<longleftrightarrow> s = []"
    by (simp add: lower_def)
  have n: "normalize_whitespace (lower s) = lower (normalize_whitespace s)"
    by (rule normalize_whitespace_lower)
  show ?thesis
    unfolding looks_like_doctor_def Let_def e n lower_idem list_ex_isdecimal_lower tokens_lower
    by simp
qed

section \<open>Substrings\<close>

lemma is_prefix_iff: "is_prefix k s \<longleftrightarrow> (\<exists>suf. s = k @ suf)"
  by (induction k s rule: is_prefix.induct) auto

lemma contains_iff: "contains s k \<longleftrightarrow> (\<exists>pre suf. s = pre @ k @ suf)"
proof (induction s)
  case Nil
  then show ?case by simp
next
  case (Cons c cs)
  show ?case
  proof
    assume "contains (c # cs) k"
    then consider "is_prefix k (c # cs)" | "contains cs k" by auto
    then show "\<exists>pre suf. c # cs = pre @ k @ suf"
    proof cases
      case 1
      then obtain suf where "c # cs = k @ suf" by (auto simp: is_prefix_iff)
      then have "c # cs = [] @ k @ suf" by simp
      then show ?thesis by blast
    next
      case 2
      then obtain pre suf where "cs = pre @ k @ suf" using Cons.IH by auto
      then have "c # cs = (c # pre) @ k @ suf" by simp
      then show ?thesis by blast
    qed
  next
    assume "\<exists>pre suf. c # cs = pre @ k @ suf"
    then obtain pre suf where ps: "c # cs = pre @ k @ suf" by auto
    show "contains (c # cs) k"
    proof (cases pre)
      case Nil
      with ps have "is_prefix k (c # cs)" by (auto simp: is_prefix_iff)
      then show ?thesis by simp
    next
      case (Cons a pre')
      with ps have "cs = pre' @ k @ suf" by simp
      then have "contains cs k" using Cons.IH by auto
      then show ?thesis by simp
    qed
  qed
qed

section \<open>The classifier's rules\<close>

text \<open>
  Claim C1. A name is accepted exactly when it is not empty, its normalised lower-cased
  form is none of the three placeholder labels and contains no block keyword as a
  substring, its normalised form contains no decimal digit, and splitting the
  normalised form at runs of hyphens, commas and whitespace leaves at least two
  non-empty tokens.
\<close>

theorem looks_like_doctor_iff:
  "looks_like_doctor s \<longleftrightarrow>
     s \<noteq> [] \<and>
     lower (normalize_whitespace s) \<notin> {''doctor name'', ''name'', ''(blank)''} \<and>
     (\<forall>keyword\<in>set BLOCK_KEYWORDS.
        \<not> (\<exists>pre suf. lower (normalize_whitespace s) = pre @ keyword @ suf)) \<and>
     (\<forall>c\<in>set (normalize_whitespace s). \<not> isdecimal c) \<and>
     2 \<le> length (filter (\<lambda>token. token \<noteq> [])
                   (re_split is_separator (normalize_whitespace s)))"
  unfolding looks_like_doctor_def Let_def list_ex_iff contains_iff by auto

theorem looks_like_doctor_iff_witness:
  "looks_like_doctor ''Dr. Jane Smith'' \<and> \<not> looks_like_doctor ''Acme Medical Clinic''"
proof
  have l: "lower (normalize_whitespace ''Dr. Jane Smith'') = ''dr. jane smith''"
    by code_simp
  have k: "list_all (\<lambda>keyword. \<not> contains ''dr. jane smith'' keyword) BLOCK_KEYWORDS"
    by code_simp
  have d: "list_all (\<lambda>c. \<not> isdecimal c) (normalize_whitespace ''Dr. Jane Smith'')"
    by code_simp
  have t: "2 \<le> length (filter (\<lambda>token. token \<noteq> [])
                   (re_split is_separator (normalize_whitespace ''Dr. Jane Smith'')))"
    by code_simp
  from k have k': "\<forall>keyword\<in>set BLOCK_KEYWORDS.
        \<not> (\<exists>pre suf. ''dr. jane smith'' = pre @ keyword @ suf)"
    unfolding list_all_iff contains_iff .
  from d have d': "\<forall>c\<in>set (normalize_whitespace ''Dr. Jane Smith''). \<not> isdecimal c"
    unfolding list_all_iff .
  show "looks_like_doctor ''Dr. Jane Smith''"
    unfolding looks_like_doctor_iff [of "''Dr. Jane Smith''"] l
    using k' d' t by simp
next
  have "contains (lower (normalize_whitespace ''Acme Medical Clinic'')) ''clinic''"
    by code_simp
  then have "\<exists>pre suf. lower (normalize_whitespace ''Acme Medical Clinic'') = pre @ ''clinic'' @ suf"
    unfolding contains_iff .
  moreover have "''clinic'' \<in> set BLOCK_KEYWORDS"
    by (simp add: BLOCK_KEYWORDS_def)
  ultimately show "\<not> looks_like_doctor ''Acme Medical Clinic''"
    unfolding looks_like_doctor_iff [of "''Acme Medical Clinic''"] by blast
qed

section \<open>The first keyword wins\<close>

lemma scan_keywords_first:
  assumes "contains combined keyword"
    and "\<forall>(k, l)\<in>set before. \<not> contains combined k"
  shows "scan_keywords (before @ (keyword, label) # after) combined = label"
  using assms by (induction before) auto

lemma scan_keywords_none:
  "\<forall>(k, l)\<in>set kws. \<not> contains combined k \<Longrightarrow>
     scan_keywords kws combined = ''General Practice''"
  by (induction kws) auto

text \<open>
  Claim C6. The text scanned is the space-joined, lower-cased list of the non-empty
  fields. The result is the label of the first pair of the specialty list, in the order
  of its declaration, whose keyword occurs in that text, and \<open>General Practice\<close> where no
  keyword occurs; a text containing both \<open>cardio\<close> and \<open>derma\<close> gives \<open>Cardiology\<close>.
\<close>

theorem infer_specialty_first_keyword:
  "combine fs = join '' '' (map lower (filter (\<lambda>field. field \<noteq> []) fs)) \<and>
   (\<forall>before keyword label after.
      SPECIALTY_KEYWORDS = before @ (keyword, label) # after \<and>
      (\<exists>pre suf. combine fs = pre @ keyword @ suf) \<and>
      (\<forall>(k, l)\<in>set before. \<not> (\<exists>pre suf. combine fs = pre @ k @ suf))
      \<longrightarrow> infer_specialty fs = label) \<and>
   ((\<forall>(k, l)\<in>set SPECIALTY_KEYWORDS. \<not> (\<exists>pre suf. combine fs = pre @ k @ suf))
      \<longrightarrow> infer_specialty fs = ''General Practice'') \<and>
   ((\<exists>pre suf. combine fs = pre @ ''cardio'' @ suf) \<and>
    (\<exists>pre suf. combine fs = pre @ ''derma'' @ suf)
      \<longrightarrow> infer_specialty fs = ''Cardiology'')"
proof (intro conjI allI impI)
  show "combine fs = join '' '' (map lower (filter (\<lambda>field. field \<noteq> []) fs))"
    by (simp add: combine_def)
next
  fix before keyword label after
  assume "SPECIALTY_KEYWORDS = before @ (keyword, label) # after \<and>
      (\<exists>pre suf. combine fs = pre @ keyword @ suf) \<and>
      (\<forall>(k, l)\<in>set before. \<not> (\<exists>pre suf. combine fs = pre @ k @ suf))"
  then have eq: "SPECIALTY_KEYWORDS = before @ (keyword, label) # after"
    and c: "contains (combine fs) keyword"
    and n: "\<forall>(k, l)\<in>set before. \<not> contains (combine fs) k"
    unfolding contains_iff by auto
  show "infer_specialty fs = label"
    unfolding infer_specialty_def eq by (rule scan_keywords_first [OF c n])
next
  assume "\<forall>(k, l)\<in>set SPECIALTY_KEYWORDS. \<not> (\<exists>pre suf. combine fs = pre @ k @ suf)"
  then show "infer_specialty fs = ''General Practice''"
    unfolding infer_specialty_def contains_iff [symmetric]
    by (rule scan_keywords_none)
next
  assume "(\<exists>pre suf. combine fs = pre @ ''cardio'' @ suf) \<and>
    (\<exists>pre suf. combine fs = pre @ ''derma'' @ suf)"
  then have "contains (combine fs) ''cardio''"
    unfolding contains_iff by simp
  then show "infer_specialty fs = ''Cardiology''"
    by (simp add: infer_specialty_def SPECIALTY_KEYWORDS_def)
qed

theorem infer_specialty_first_keyword_witness:
  "infer_specialty [''Dermatology'', ''sub: neuro''] = ''Dermatology'' \<and>
   infer_specialty [''MD'', ''REG123''] = ''General Practice'' \<and>
   infer_specialty [''Derma and Cardio'', []] = ''Cardiology''"
proof (intro conjI)
  let ?f = "[''Dermatology'', ''sub: neuro'']"
  have c: "combine ?f = ''dermatology sub: neuro''" by code_simp
  have "contains ''dermatology sub: neuro'' ''derma''" by code_simp
  then have 1: "\<exists>pre suf. combine ?f = pre @ ''derma'' @ suf"
    unfolding c contains_iff .
  have "\<not> contains ''dermatology sub: neuro'' ''cardio''" by code_simp
  then have 2: "\<forall>(k, l)\<in>set [(''cardio'', ''Cardiology'')].
                  \<not> (\<exists>pre suf. combine ?f = pre @ k @ suf)"
    unfolding c contains_iff by simp
  have 3: "SPECIALTY_KEYWORDS =
             [(''cardio'', ''Cardiology'')] @ (''derma'', ''Dermatology'') #
             tl (tl SPECIALTY_KEYWORDS)"
    by (simp add: SPECIALTY_KEYWORDS_def)
  show "infer_specialty ?f = ''Dermatology''"
    using infer_specialty_first_keyword [of ?f] 1 2 3 by blast
next
  let ?f = "[''MD'', ''REG123'']"
  have c: "combine ?f = ''md reg123''" by code_simp
  have "list_all (\<lambda>(k, l). \<not> contains ''md reg123'' k) SPECIALTY_KEYWORDS" by code_simp
  then have "\<forall>(k, l)\<in>set SPECIALTY_KEYWORDS. \<not> (\<exists>pre suf. combine ?f = pre @ k @ suf)"
    unfolding c list_all_iff contains_iff .
  then show "infer_specialty ?f = ''General Practice''"
    using infer_specialty_first_keyword [of ?f] by blast
next
  let ?f = "[''Derma and Cardio'', []]"
  have c: "combine ?f = ''derma and cardio''" by code_simp
  have "contains ''derma and cardio'' ''cardio''" "contains ''derma and cardio'' ''derma''"
    by code_simp+
  then have "(\<exists>pre suf. combine ?f = pre @ ''cardio'' @ suf) \<and>
             (\<exists>pre suf. combine ?f = pre @ ''derma'' @ suf)"
    unfolding c contains_iff by simp
  then show "infer_specialty ?f = ''Cardiology''"
    using infer_specialty_first_keyword [of ?f] by blast
qed

section \<open>Fragments of a multi-valued field\<close>

text \<open>
  Claim C5 says that no element of the list returned by \<open>split_multi_value\<close> is the empty
  string. The filter tests the fragment after \<^verbatim>\<open>strip(" ;")\<close>, before its whitespace is
  normalised: a fragment made of a tab passes the filter and is normalised to the empty
  string.
\<close>

theorem split_multi_value_tab: "split_multi_value [CHR 0x09] = [[]]"
  by code_simp

section \<open>The sample table, evaluated\<close>

lemma parse_row_a: "parse_row example_columns row_a = Some parsed_a"
  by code_simp

lemma parse_row_b: "parse_row example_columns row_b = Some parsed_b"
  by code_simp

lemma parse_row_c: "parse_row example_columns row_c = Some parsed_c"
  by code_simp

lemma key_basis_a: "key_basis parsed_a = ''john doe|R1''"
  by code_simp

lemma key_basis_b: "key_basis parsed_b = ''john doe|R1''"
  by code_simp

lemma entry_id_ab: "entry_id parsed_a = entry_id parsed_b"
  by (simp add: entry_id_def key_basis_a key_basis_b)

lemma resolve_example_header:
  "resolve_columns (header_values example_header) = Inr example_columns"
  by code_simp

section \<open>Sorted unions\<close>

lemma set_sorted_union: "set (sorted_union xs ys) = set xs \<union> set ys"
  by (simp add: sorted_union_def)

lemma sorted_sorted_union: "sorted (sorted_union xs ys)"
  by (simp add: sorted_union_def)

lemma distinct_sorted_union: "distinct (sorted_union xs ys)"
  by (simp add: sorted_union_def)

lemma sorted_union_cong:
  "set xs \<union> set ys = set us \<union> set vs \<Longrightarrow> sorted_union xs ys = sorted_union us vs"
  by (rule sorted_distinct_set_unique)
     (simp_all add: sorted_sorted_union distinct_sorted_union set_sorted_union)

section \<open>One step of the scan\<close>

lemma merge_row_present:
  assumes "map_of es (entry_id p) = Some existing"
  shows "merge_row es p =
           AList.update (entry_id p)
             (existing\<lparr>contacts := sorted_union (contacts existing) (p_contacts p),
                       credentials := sorted_union (credentials existing) (p_credentials p),
                       registrationNumbers :=
                         sorted_union (registrationNumbers existing) (p_reg_numbers p)\<rparr>) es"
  using assms by (simp add: merge_row_def)

lemma merge_row_absent:
  assumes "map_of es (entry_id p) = None"
  shows "merge_row es p =
           AList.update (entry_id p)
             \<lparr>id_field = entry_id p, name = p_name p, specialty = p_specialty p,
              contacts = p_contacts p, credentials = p_credentials p,
              registrationNumbers = p_reg_numbers p, sourceFile = p_source_value p\<rparr> es"
  using assms by (simp add: merge_row_def)

lemma map_of_merge_row_other:
  "k \<noteq> entry_id p \<Longrightarrow> map_of (merge_row es p) k = map_of es k"
  by (cases "map_of es (entry_id p)") (simp_all add: merge_row_def update_conv')

lemma keys_merge_row_present:
  assumes "map_of es (entry_id p) = Some existing"
  shows "map fst (merge_row es p) = map fst es"
proof -
  have "entry_id p \<in> fst ` set es"
    using assms by (metis map_of_eq_None_iff option.distinct(1))
  then show ?thesis
    by (simp add: merge_row_present [OF assms] update_keys)
qed

lemma keys_merge_row_absent:
  assumes "map_of es (entry_id p) = None"
  shows "map fst (merge_row es p) = map fst es @ [entry_id p]"
proof -
  have "entry_id p \<notin> fst ` set es"
    using assms by (simp add: map_of_eq_None_iff)
  then show ?thesis
    by (simp add: merge_row_absent [OF assms] update_keys)
qed

text \<open>
  Claim C7. Where the id computed for an accepted row is already a key of the mapping,
  processing the row leaves the keys and their order as they are (no entry is inserted),
  leaves every other entry as it is, and in the entry under that key leaves the id, the
  name, the specialty and the source file unchanged, while each of the contacts,
  credentials and registration numbers becomes the sorted, duplicate-free union of its
  old value and the row's.
\<close>

theorem merge_existing_frame:
  assumes "parse_row cols r = Some p"
    and "map_of es (entry_id p) = Some existing"
  shows "map fst (process_row cols es r) = map fst es \<and>
         (\<forall>k. k \<noteq> entry_id p \<longrightarrow> map_of (process_row cols es r) k = map_of es k) \<and>
         (\<exists>e. map_of (process_row cols es r) (entry_id p) = Some e \<and>
              id_field e = id_field existing \<and>
              name e = name existing \<and>
              specialty e = specialty existing \<and>
              sourceFile e = sourceFile existing \<and>
              contacts e = sort (remdups (contacts existing @ p_contacts p)) \<and>
              credentials e = sort (remdups (credentials existing @ p_credentials p)) \<and>
              registrationNumbers e =
                sort (remdups (registrationNumbers existing @ p_reg_numbers p)) \<and>
              set (contacts e) = set (contacts existing) \<union> set (p_contacts p) \<and>
              set (credentials e) = set (credentials existing) \<union> set (p_credentials p) \<and>
              set (registrationNumbers e) =
                set (registrationNumbers existing) \<union> set (p_reg_numbers p))"
proof -
  have pr: "process_row cols es r = merge_row es p"
    using assms(1) by (simp add: process_row_def)
  have "map fst (merge_row es p) = map fst es"
    by (rule keys_merge_row_present [OF assms(2)])
  moreover have "\<forall>k. k \<noteq> entry_id p \<longrightarrow> map_of (merge_row es p) k = map_of es k"
    by (simp add: map_of_merge_row_other)
  moreover have "map_of (merge_row es p) (entry_id p) =
      Some (existing\<lparr>contacts := sorted_union (contacts existing) (p_contacts p),
                       credentials := sorted_union (credentials existing) (p_credentials p),
                       registrationNumbers :=
                         sorted_union (registrationNumbers existing) (p_reg_numbers p)\<rparr>)"
    by (simp add: merge_row_present [OF assms(2)] update_conv')
  ultimately show ?thesis
    unfolding pr by (simp add: sorted_union_def)
qed

theorem merge_existing_frame_witness:
  "parse_row example_columns row_b = Some parsed_b \<and>
   map_of (process_row example_columns [] row_a) (entry_id parsed_b) =
     Some \<lparr>id_field = entry_id parsed_a, name = ''John Doe'', specialty = ''Cardiology'',
           contacts = [''a@x.com''], credentials = [''Cardiology''],
           registrationNumbers = [''R1''], sourceFile = ''f1.csv''\<rparr> \<and>
   map (\<lambda>(k, e). (name e, specialty e, sourceFile e, contacts e, credentials e,
                  registrationNumbers e))
     (process_row example_columns (process_row example_columns [] row_a) row_b) =
     [(''John Doe'', ''Cardiology'', ''f1.csv'', [''a@x.com'', ''b@x.com''],
       [''Cardiology'', ''Dermatology''], [''R1''])]"
proof -
  let ?ea = "\<lparr>id_field = entry_id parsed_a, name = ''John Doe'', specialty = ''Cardiology'',
           contacts = [''a@x.com''], credentials = [''Cardiology''],
           registrationNumbers = [''R1''], sourceFile = ''f1.csv''\<rparr>"
  have es: "process_row example_columns [] row_a = [(entry_id parsed_a, ?ea)]"
    by (simp add: process_row_def parse_row_a merge_row_def) (simp add: parsed_a_def)
  have h: "map_of (process_row example_columns [] row_a) (entry_id parsed_b) = Some ?ea"
    by (simp add: es entry_id_ab)
  note f = merge_existing_frame [OF parse_row_b h]
  have s1: "sort (remdups ([''a@x.com''] @ p_contacts parsed_b)) = [''a@x.com'', ''b@x.com'']"
    by code_simp
  have s2: "sort (remdups ([''Cardiology''] @ p_credentials parsed_b)) =
              [''Cardiology'', ''Dermatology'']"
    by code_simp
  have s3: "sort (remdups ([''R1''] @ p_reg_numbers parsed_b)) = [''R1'']"
    by code_simp
  from f obtain e where e: "map_of (process_row example_columns
        (process_row example_columns [] row_a) row_b) (entry_id parsed_b) = Some e"
    and n: "name e = name ?ea" "specialty e = specialty ?ea" "sourceFile e = sourceFile ?ea"
    and c: "contacts e = sort (remdups (contacts ?ea @ p_contacts parsed_b))"
      "credentials e = sort (remdups (credentials ?ea @ p_credentials parsed_b))"
      "registrationNumbers e =
         sort (remdups (registrationNumbers ?ea @ p_reg_numbers parsed_b))"
    by blast
  have r: "contacts ?ea = [''a@x.com'']" "credentials ?ea = [''Cardiology'']"
    "registrationNumbers ?ea = [''R1'']"
    by simp_all
  have v: "name e = ''John Doe''" "specialty e = ''Cardiology''" "sourceFile e = ''f1.csv''"
      "contacts e = [''a@x.com'', ''b@x.com'']"
      "credentials e = [''Cardiology'', ''Dermatology'']"
      "registrationNumbers e = [''R1'']"
    using n c unfolding r s1 s2 s3 by simp_all
  from f have k: "map fst (process_row example_columns
        (process_row example_columns [] row_a) row_b) = [entry_id parsed_a]"
    by (simp add: es)
  then obtain e' where l: "process_row example_columns
        (process_row example_columns [] row_a) row_b = [(entry_id parsed_a, e')]"
    by (cases "process_row example_columns (process_row example_columns [] row_a) row_b")
       auto
  with e have "e' = e" by (simp add: entry_id_ab)
  with l v parse_row_b h show ?thesis by simp
qed

section \<open>A missing spreadsheet\<close>

text \<open>
  Claim C8. Where the spreadsheet does not exist, the run ends with the error
  \<open>FileNotFoundError\<close> and leaves both paths as they were: nothing is read, and the
  output file is neither created nor written.
\<close>

theorem build_directory_missing_input:
  "numbers_file w = None \<Longrightarrow> build_directory w = (Inl FileNotFoundError, w)"
  by (simp add: build_directory_def)

theorem build_directory_missing_input_witness:
  "numbers_file \<lparr>numbers_file = None, output_file = None\<rparr> = None \<and>
   build_directory \<lparr>numbers_file = None, output_file = None\<rparr> =
     (Inl FileNotFoundError, \<lparr>numbers_file = None, output_file = None\<rparr>)"
  using build_directory_missing_input [of "\<lparr>numbers_file = None, output_file = None\<rparr>"]
  by simp

section \<open>An entry that is never merged\<close>

lemma scan_row_c:
  "scan_rows example_columns [row_c] =
     [(entry_id parsed_c,
       \<lparr>id_field = entry_id parsed_c, name = ''Jane Smith'', specialty = ''General Practice'',
        contacts = [''b'', ''a'', ''b''], credentials = [''MD''],
        registrationNumbers = [''R2''], sourceFile = ''f3.csv''\<rparr>)]"
  by (simp add: scan_rows_def process_row_def parse_row_c merge_row_def)
     (simp add: parsed_c_def)

text \<open>
  Claim C3 says that in every entry of the output the contacts, the credentials and the
  registration numbers are duplicate-free and sorted, merged or not. The merge sorts and
  removes duplicates; the insertion of a new entry stores the lists as
  \<open>split_multi_value\<close> returns them. For a table of the one row \<open>row_c\<close>, whose contacts
  cell is \<open>b; a; b\<close>, the output entry has the contacts \<open>b, a, b\<close>.
\<close>

theorem unmerged_entry_unsorted:
  "map_option (map contacts) (output_file (snd (build_directory example_world))) =
     Some [[''b'', ''a'', ''b'']] \<and>
   \<not> sorted [''b'', ''a'', ''b''] \<and> \<not> distinct [''b'', ''a'', ''b'']"
proof -
  have "build_directory example_world =
          (Inr (length (scan_rows example_columns [row_c])),
           example_world\<lparr>output_file := Some (map snd (scan_rows example_columns [row_c]))\<rparr>)"
    by (simp add: build_directory_def example_world_def resolve_example_header Let_def)
  then have "map_option (map contacts) (output_file (snd (build_directory example_world))) =
     Some [[''b'', ''a'', ''b'']]"
    by (simp add: scan_row_c)
  moreover have "\<not> sorted [''b'', ''a'', ''b'']"
    by code_simp
  moreover have "\<not> distinct [''b'', ''a'', ''b'']"
    by simp
  ultimately show ?thesis by simp
qed

section \<open>The order of two rows with one key\<close>

lemma process_row_a: "process_row example_columns es row_a = merge_row es parsed_a"
  by (simp add: process_row_def parse_row_a)

lemma process_row_b: "process_row example_columns es row_b = merge_row es parsed_b"
  by (simp add: process_row_def parse_row_b)

text \<open>
  Claim C2 says that two accepted rows with one identity key give the same final entry
  in either order, up to the order of the multi-valued fields. The name, the specialty
  and the source file of an entry are those of the row that inserted it: \<open>row_a\<close> and
  \<open>row_b\<close> have the same key, and the entry differs in all three with the order.
\<close>

theorem row_order_counterexample:
  "parse_row example_columns row_a = Some parsed_a \<and>
   parse_row example_columns row_b = Some parsed_b \<and>
   entry_id parsed_a = entry_id parsed_b \<and>
   map (name \<circ> snd) (scan_rows example_columns [row_a, row_b]) = [''John Doe''] \<and>
   map (name \<circ> snd) (scan_rows example_columns [row_b, row_a]) = [''JOHN DOE''] \<and>
   map (specialty \<circ> snd) (scan_rows example_columns [row_a, row_b]) = [''Cardiology''] \<and>
   map (specialty \<circ> snd) (scan_rows example_columns [row_b, row_a]) = [''Dermatology''] \<and>
   map (sourceFile \<circ> snd) (scan_rows example_columns [row_a, row_b]) = [''f1.csv''] \<and>
   map (sourceFile \<circ> snd) (scan_rows example_columns [row_b, row_a]) = [''f2.csv'']"
proof -
  have ab: "map (\<lambda>(k, e). (name e, specialty e, sourceFile e))
              (scan_rows example_columns [row_a, row_b]) =
            [(''John Doe'', ''Cardiology'', ''f1.csv'')]"
    by (simp add: scan_rows_def process_row_a process_row_b merge_row_def entry_id_ab)
       (simp add: parsed_a_def)
  have ba: "map (\<lambda>(k, e). (name e, specialty e, sourceFile e))
              (scan_rows example_columns [row_b, row_a]) =
            [(''JOHN DOE'', ''Dermatology'', ''f2.csv'')]"
    by (simp add: scan_rows_def process_row_a process_row_b merge_row_def entry_id_ab)
       (simp add: parsed_b_def)
  from ab obtain k e where 1: "scan_rows example_columns [row_a, row_b] = [(k, e)]"
    by (cases "scan_rows example_columns [row_a, row_b]") auto
  from ba obtain k' e' where 2: "scan_rows example_columns [row_b, row_a] = [(k', e')]"
    by (cases "scan_rows example_columns [row_b, row_a]") auto
  show ?thesis
    using ab ba unfolding 1 2 by (simp add: parse_row_a parse_row_b entry_id_ab)
qed

lemma map_of_merge_row_same:
  "map_of (merge_row es p) (entry_id p) =
     Some (case map_of es (entry_id p) of
             None \<Rightarrow>
               \<lparr>id_field = entry_id p, name = p_name p, specialty = p_specialty p,
                contacts = p_contacts p, credentials = p_credentials p,
                registrationNumbers = p_reg_numbers p, sourceFile = p_source_value p\<rparr>
           | Some existing \<Rightarrow>
               existing\<lparr>contacts := sorted_union (contacts existing) (p_contacts p),
                        credentials := sorted_union (credentials existing) (p_credentials p),
                        registrationNumbers :=
                          sorted_union (registrationNumbers existing) (p_reg_numbers p)\<rparr>)"
  by (cases "map_of es (entry_id p)") (simp_all add: merge_row_def update_conv')

lemma sorted_union_twice:
  "sorted_union (sorted_union xs ys) zs = sorted_union (sorted_union xs zs) ys"
  by (rule sorted_union_cong) (auto simp: set_sorted_union)

lemma sorted_union_commute: "sorted_union xs ys = sorted_union ys xs"
  by (rule sorted_union_cong) auto

text \<open>
  Claim C2, amended. For two accepted rows with one identity key, processed in either
  order from any mapping, the entry under that key has the same id and the same
  contacts, credentials and registration numbers: each is the sorted, duplicate-free
  union of the values of both rows and of the entry already under the key, if any. The
  name, the specialty and the source file are those of the entry already under the key
  or, where there is none, of the row processed first.
\<close>

theorem row_order_merged_fields:
  assumes "parse_row cols ra = Some p"
    and "parse_row cols rb = Some q"
    and "entry_id p = entry_id q"
  shows "\<exists>e1 e2.
           map_of (process_row cols (process_row cols es ra) rb) (entry_id p) = Some e1 \<and>
           map_of (process_row cols (process_row cols es rb) ra) (entry_id p) = Some e2 \<and>
           id_field e1 = id_field e2 \<and>
           contacts e1 = contacts e2 \<and>
           credentials e1 = credentials e2 \<and>
           registrationNumbers e1 = registrationNumbers e2 \<and>
           set (contacts e1) =
             (case map_of es (entry_id p) of
                None \<Rightarrow> {} | Some existing \<Rightarrow> set (contacts existing)) \<union>
             set (p_contacts p) \<union> set (p_contacts q) \<and>
           set (credentials e1) =
             (case map_of es (entry_id p) of
                None \<Rightarrow> {} | Some existing \<Rightarrow> set (credentials existing)) \<union>
             set (p_credentials p) \<union> set (p_credentials q) \<and>
           set (registrationNumbers e1) =
             (case map_of es (entry_id p) of
                None \<Rightarrow> {} | Some existing \<Rightarrow> set (registrationNumbers existing)) \<union>
             set (p_reg_numbers p) \<union> set (p_reg_numbers q) \<and>
           sorted (contacts e1) \<and> distinct (contacts e1) \<and>
           sorted (credentials e1) \<and> distinct (credentials e1) \<and>
           sorted (registrationNumbers e1) \<and> distinct (registrationNumbers e1) \<and>
           name e1 = (case map_of es (entry_id p) of
                        None \<Rightarrow> p_name p | Some existing \<Rightarrow> name existing) \<and>
           name e2 = (case map_of es (entry_id p) of
                        None \<Rightarrow> p_name q | Some existing \<Rightarrow> name existing) \<and>
           specialty e1 = (case map_of es (entry_id p) of
                             None \<Rightarrow> p_specialty p | Some existing \<Rightarrow> specialty existing) \<and>
           specialty e2 = (case map_of es (entry_id p) of
                             None \<Rightarrow> p_specialty q | Some existing \<Rightarrow> specialty existing) \<and>
           sourceFile e1 = (case map_of es (entry_id p) of
                              None \<Rightarrow> p_source_value p | Some existing \<Rightarrow> sourceFile existing) \<and>
           sourceFile e2 = (case map_of es (entry_id p) of
                              None \<Rightarrow> p_source_value q | Some existing \<Rightarrow> sourceFile existing)"
proof -
  have pa: "\<And>m. process_row cols m ra = merge_row m p"
    using assms(1) by (simp add: process_row_def)
  have pb: "\<And>m. process_row cols m rb = merge_row m q"
    using assms(2) by (simp add: process_row_def)
  note a = map_of_merge_row_same [of es p]
  note b = map_of_merge_row_same [of es q, unfolded assms(3) [symmetric]]
  note ab = map_of_merge_row_same [of "merge_row es p" q, unfolded assms(3) [symmetric]]
  note ba = map_of_merge_row_same [of "merge_row es q" p]
  show ?thesis
    unfolding pa pb ab ba a b
    by (cases "map_of es (entry_id p)")
       (simp_all add: sorted_union_twice sorted_union_commute [of "p_contacts p"]
          sorted_union_commute [of "p_credentials p"]
          sorted_union_commute [of "p_reg_numbers p"]
          set_sorted_union sorted_sorted_union distinct_sorted_union Un_commute)
qed

theorem row_order_merged_fields_witness:
  "parse_row example_columns row_a = Some parsed_a \<and>
   parse_row example_columns row_b = Some parsed_b \<and>
   entry_id parsed_a = entry_id parsed_b \<and>
   map (contacts \<circ> snd) (scan_rows example_columns [row_a, row_b]) =
     map (contacts \<circ> snd) (scan_rows example_columns [row_b, row_a]) \<and>
   map (credentials \<circ> snd) (scan_rows example_columns [row_a, row_b]) =
     map (credentials \<circ> snd) (scan_rows example_columns [row_b, row_a]) \<and>
   map (registrationNumbers \<circ> snd) (scan_rows example_columns [row_a, row_b]) =
     map (registrationNumbers \<circ> snd) (scan_rows example_columns [row_b, row_a]) \<and>
   map (id_field \<circ> snd) (scan_rows example_columns [row_a, row_b]) =
     map (id_field \<circ> snd) (scan_rows example_columns [row_b, row_a])"
proof -
  let ?ab = "process_row example_columns (process_row example_columns [] row_a) row_b"
  let ?ba = "process_row example_columns (process_row example_columns [] row_b) row_a"
  from row_order_merged_fields [OF parse_row_a parse_row_b entry_id_ab, of "[]"]
  obtain e1 e2 where e: "map_of ?ab (entry_id parsed_a) = Some e1"
      "map_of ?ba (entry_id parsed_a) = Some e2"
    and v: "id_field e1 = id_field e2" "contacts e1 = contacts e2"
      "credentials e1 = credentials e2" "registrationNumbers e1 = registrationNumbers e2"
    by blast
  obtain u where "map_of (merge_row [] parsed_a) (entry_id parsed_b) = Some u"
    using map_of_merge_row_same [of "[]" parsed_a] by (simp add: entry_id_ab)
  then have "map fst (merge_row (merge_row [] parsed_a) parsed_b) =
               map fst (merge_row [] parsed_a)"
    by (rule keys_merge_row_present)
  then have "map fst ?ab = [entry_id parsed_a]"
    by (simp add: process_row_a process_row_b keys_merge_row_absent)
  then obtain x where ab: "?ab = [(entry_id parsed_a, x)]"
    by (cases ?ab) auto
  obtain w where "map_of (merge_row [] parsed_b) (entry_id parsed_a) = Some w"
    using map_of_merge_row_same [of "[]" parsed_b] by (simp add: entry_id_ab)
  then have "map fst (merge_row (merge_row [] parsed_b) parsed_a) =
               map fst (merge_row [] parsed_b)"
    by (rule keys_merge_row_present)
  then have "map fst ?ba = [entry_id parsed_a]"
    by (simp add: process_row_a process_row_b keys_merge_row_absent entry_id_ab)
  then obtain y where ba: "?ba = [(entry_id parsed_a, y)]"
    by (cases ?ba) auto
  from e have "x = e1" "y = e2"
    unfolding ab ba by simp_all
  with v ab ba show ?thesis
    by (simp add: scan_rows_def parse_row_a parse_row_b entry_id_ab)
qed

section \<open>The identity key\<close>

lemma length_sha1: "length (sha1 m) = 5"
  by (simp add: sha1_def split: prod.splits)

lemma length_hex32: "length (hex32 w) = 8"
  by (simp add: hex32_def)

lemma length_concat_hex32: "length (concat (map hex32 ws)) = 8 * length ws"
  by (induction ws) (simp_all add: length_hex32)

lemma length_sha1_hexdigest: "length (sha1_hexdigest s) = 40"
  by (simp add: sha1_hexdigest_def length_concat_hex32 length_sha1)

lemma hex_digit_in: "hex_digit n \<in> set ''0123456789abcdef''"
proof -
  have "n mod 16 < length ''0123456789abcdef''" by simp
  then show ?thesis
    unfolding hex_digit_def by (rule nth_mem)
qed

lemma set_hex32: "set (hex32 w) \<subseteq> set ''0123456789abcdef''"
proof
  fix c
  assume "c \<in> set (hex32 w)"
  then obtain n where "c = hex_digit n"
    unfolding hex32_def by auto
  then show "c \<in> set ''0123456789abcdef''"
    by (simp only: hex_digit_in)
qed

lemma set_concat_hex32: "set (concat (map hex32 ws)) \<subseteq> set ''0123456789abcdef''"
proof (induction ws)
  case Nil
  then show ?case by simp
next
  case (Cons w ws)
  have "set (concat (map hex32 (w # ws))) = set (hex32 w) \<union> set (concat (map hex32 ws))"
    by simp
  with Cons set_hex32 [of w] show ?case by blast
qed

lemma set_sha1_hexdigest: "set (sha1_hexdigest s) \<subseteq> set ''0123456789abcdef''"
  unfolding sha1_hexdigest_def by (rule set_concat_hex32)

lemma length_entry_id: "length (entry_id p) = 12"
  by (simp add: entry_id_def length_sha1_hexdigest)

lemma set_entry_id: "set (entry_id p) \<subseteq> set ''0123456789abcdef''"
proof -
  have "set (take 12 (sha1_hexdigest (key_basis p))) \<subseteq> set (sha1_hexdigest (key_basis p))"
    by (rule set_take_subset)
  also have "\<dots> \<subseteq> set ''0123456789abcdef''"
    by (rule set_sha1_hexdigest)
  finally show ?thesis
    unfolding entry_id_def .
qed

lemma ids_are_keys_merge_row: "ids_are_keys es \<Longrightarrow> ids_are_keys (merge_row es p)"
  unfolding ids_are_keys_def
proof (intro allI impI)
  fix k e
  assume inv: "\<forall>k e. map_of es k = Some e \<longrightarrow> id_field e = k"
    and m: "map_of (merge_row es p) k = Some e"
  show "id_field e = k"
  proof (cases "k = entry_id p")
    case False
    with m inv show ?thesis by (simp add: map_of_merge_row_other)
  next
    case True
    with m inv show ?thesis
      unfolding True map_of_merge_row_same
      by (cases "map_of es (entry_id p)") auto
  qed
qed

lemma ids_are_keys_process_row: "ids_are_keys es \<Longrightarrow> ids_are_keys (process_row cols es r)"
  by (cases "parse_row cols r") (simp_all add: process_row_def ids_are_keys_merge_row)

lemma ids_are_keys_foldl:
  "ids_are_keys es \<Longrightarrow> ids_are_keys (foldl (process_row cols) es rs)"
  by (induction rs arbitrary: es) (simp_all add: ids_are_keys_process_row)

lemma key_kept_merge_row:
  "map_of es k \<noteq> None \<Longrightarrow> map_of (merge_row es p) k \<noteq> None"
  by (cases "k = entry_id p") (simp_all add: map_of_merge_row_other map_of_merge_row_same)

lemma key_kept_process_row:
  "map_of es k \<noteq> None \<Longrightarrow> map_of (process_row cols es r) k \<noteq> None"
  by (cases "parse_row cols r") (simp_all add: process_row_def key_kept_merge_row)

lemma key_kept_foldl:
  "map_of es k \<noteq> None \<Longrightarrow> map_of (foldl (process_row cols) es rs) k \<noteq> None"
proof (induction rs arbitrary: es)
  case Nil
  then show ?case by simp
next
  case (Cons a rs)
  have "map_of (process_row cols es a) k \<noteq> None"
    using Cons.prems by (rule key_kept_process_row)
  then have "map_of (foldl (process_row cols) (process_row cols es a) rs) k \<noteq> None"
    by (rule Cons.IH)
  then show ?case by simp
qed

lemma key_of_row_foldl:
  assumes "r \<in> set rs" and "parse_row cols r = Some p"
  shows "map_of (foldl (process_row cols) es rs) (entry_id p) \<noteq> None"
  using assms(1)
proof (induction rs arbitrary: es)
  case Nil
  then show ?case by simp
next
  case (Cons a rs)
  show ?case
  proof (cases "a = r")
    case True
    have "map_of (process_row cols es r) (entry_id p) \<noteq> None"
      using assms(2) by (simp add: process_row_def map_of_merge_row_same)
    then show ?thesis
      unfolding True foldl_Cons by (rule key_kept_foldl)
  next
    case False
    with Cons show ?thesis by simp
  qed
qed

lemma parse_row_fields:
  assumes "parse_row cols r = Some p"
  shows "\<exists>v. name_idx cols < length r \<and> r ! name_idx cols = Some v \<and> v \<noteq> PyNone \<and>
             p_name p = normalize_whitespace (py_str v) \<and>
             looks_like_doctor (p_name p)"
    and "p_reg_numbers p =
           split_multi_value (case text_at (reg_idx cols) r of
                                None \<Rightarrow> [] | Some s \<Rightarrow> normalize_whitespace s)"
    and "p_source_value p = (case text_at (source_idx cols) r of None \<Rightarrow> [] | Some s \<Rightarrow> s)"
  using assms
  by (auto simp: parse_row_def Let_def split: if_splits option.splits py_value.splits)

text \<open>
  Claim C4. For an accepted row of the table, with the name, the registration numbers
  and the source file parsed from it, the id is the first 12 characters of the SHA-1
  hexadecimal digest of the lower-cased normalised name, a bar, and the first
  registration number or, where there is none, the lower-cased source file. It has
  exactly 12 characters, all hexadecimal digits; the scan holds an entry with this id
  under this key; and the id is a function of name, registration numbers and source
  file alone.
\<close>

theorem entry_id_digest:
  assumes "parse_row cols r = Some p" and "r \<in> set rs"
  shows "(\<exists>v. r ! name_idx cols = Some v \<and> p_name p = normalize_whitespace (py_str v)) \<and>
         p_reg_numbers p =
           split_multi_value (case text_at (reg_idx cols) r of
                                None \<Rightarrow> [] | Some s \<Rightarrow> normalize_whitespace s) \<and>
         p_source_value p = (case text_at (source_idx cols) r of None \<Rightarrow> [] | Some s \<Rightarrow> s) \<and>
         entry_id p =
           take 12 (sha1_hexdigest
                      (lower (p_name p) @ ''|'' @
                       (if p_reg_numbers p \<noteq> [] then hd (p_reg_numbers p)
                        else lower (p_source_value p)))) \<and>
         length (entry_id p) = 12 \<and>
         set (entry_id p) \<subseteq> set ''0123456789abcdef'' \<and>
         (\<exists>e. (entry_id p, e) \<in> set (scan_rows cols rs) \<and> id_field e = entry_id p) \<and>
         (\<forall>q. p_name q = p_name p \<and> p_reg_numbers q = p_reg_numbers p \<and>
              p_source_value q = p_source_value p \<longrightarrow> entry_id q = entry_id p)"
proof -
  have "ids_are_keys (scan_rows cols rs)"
    unfolding scan_rows_def by (rule ids_are_keys_foldl) (simp add: ids_are_keys_def)
  moreover obtain e where e: "map_of (scan_rows cols rs) (entry_id p) = Some e"
    using key_of_row_foldl [OF assms(2) assms(1), of "[]"] by (auto simp: scan_rows_def)
  ultimately have "id_field e = entry_id p"
    by (simp add: ids_are_keys_def)
  moreover have "(entry_id p, e) \<in> set (scan_rows cols rs)"
    using e by (rule map_of_SomeD)
  ultimately have 1: "\<exists>e. (entry_id p, e) \<in> set (scan_rows cols rs) \<and> id_field e = entry_id p"
    by blast
  have 2: "entry_id p =
           take 12 (sha1_hexdigest
                      (lower (p_name p) @ ''|'' @
                       (if p_reg_numbers p \<noteq> [] then hd (p_reg_numbers p)
                        else lower (p_source_value p))))"
    by (cases "p_reg_numbers p") (simp_all add: entry_id_def key_basis_def)
  have 3: "\<forall>q. p_name q = p_name p \<and> p_reg_numbers q = p_reg_numbers p \<and>
              p_source_value q = p_source_value p \<longrightarrow> entry_id q = entry_id p"
    by (cases "p_reg_numbers p") (simp_all add: entry_id_def key_basis_def)
  show ?thesis
    using parse_row_fields [OF assms(1)] 1 2 3 length_entry_id [of p] set_entry_id [of p]
    by blast
qed

theorem entry_id_digest_witness:
  "parse_row example_columns row_a = Some parsed_a \<and>
   row_a \<in> set [row_a] \<and>
   entry_id parsed_a = take 12 (sha1_hexdigest ''john doe|R1'') \<and>
   length (entry_id parsed_a) = 12 \<and>
   map (id_field \<circ> snd) (scan_rows example_columns [row_a]) =
     [take 12 (sha1_hexdigest ''john doe|R1'')]"
proof -
  have r: "row_a \<in> set [row_a]" by simp
  note d = entry_id_digest [OF parse_row_a r]
  have b: "lower (p_name parsed_a) @ ''|'' @
             (if p_reg_numbers parsed_a \<noteq> [] then hd (p_reg_numbers parsed_a)
              else lower (p_source_value parsed_a)) = ''john doe|R1''"
    by code_simp
  from d have i: "entry_id parsed_a = take 12 (sha1_hexdigest ''john doe|R1'')"
    unfolding b by blast
  from d have l: "length (entry_id parsed_a) = 12"
    by blast
  from d obtain e where e: "(entry_id parsed_a, e) \<in> set (scan_rows example_columns [row_a])"
    "id_field e = entry_id parsed_a"
    by blast
  have "map fst (scan_rows example_columns [row_a]) = [entry_id parsed_a]"
    by (simp add: scan_rows_def process_row_a keys_merge_row_absent)
  then obtain x where x: "scan_rows example_columns [row_a] = [(entry_id parsed_a, x)]"
    by (cases "scan_rows example_columns [row_a]") auto
  with e have "id_field x = entry_id parsed_a" by simp
  with x have "map (id_field \<circ> snd) (scan_rows example_columns [row_a]) = [entry_id parsed_a]"
    by simp
  with i l parse_row_a r show ?thesis by (simp only:)
qed

section \<open>Fragments of a normalised field\<close>

lemma set_join: "set (join sep ts) \<subseteq> set sep \<union> \<Union> (set ` set ts)"
  by (induction sep ts rule: join.induct) auto

lemma normalize_whitespace_chars:
  assumes "c \<in> set (normalize_whitespace s)"
  shows "c = CHR '' '' \<or> \<not> isspace c"
proof -
  have "set (join '' '' (str_split s)) \<subseteq> set '' '' \<union> \<Union> (set ` set (str_split s))"
    by (rule set_join)
  with assms have "c \<in> set '' '' \<union> \<Union> (set ` set (str_split s))"
    unfolding normalize_whitespace_def by (rule_tac subsetD)
  then have "c \<in> set '' '' \<or> (\<exists>t\<in>set (str_split s). c \<in> set t)"
    by (simp only: Un_iff UN_iff)
  then show ?thesis
  proof
    assume "c \<in> set '' ''"
    then show ?thesis by simp
  next
    assume "\<exists>t\<in>set (str_split s). c \<in> set t"
    then obtain t where t: "t \<in> set (str_split s)" "c \<in> set t"
      by (rule bexE)
    from str_split_tokens [OF t(1)] have "\<forall>c\<in>set t. \<not> isspace c"
      by (rule conjunct2)
    then have "\<not> isspace c"
      using t(2) by (rule bspec)
    then show ?thesis by (rule disjI2)
  qed
qed

lemma split_runs_subset: "t \<in> set (split_runs p b s) \<Longrightarrow> set t \<subseteq> set s"
proof (induction s arbitrary: b t)
  case Nil
  then show ?case by simp
next
  case (Cons a s)
  show ?case
  proof (cases "p a")
    case True
    with Cons show ?thesis by (fastforce split: if_splits)
  next
    case False
    obtain u us where u: "split_runs p False s = u # us"
      using split_runs_not_Nil [of p False s] by (cases "split_runs p False s") auto
    have "\<forall>t'\<in>set (u # us). set t' \<subseteq> set s"
      using Cons.IH [of _ False] u by auto
    with Cons.prems False u show ?thesis by auto
  qed
qed

lemma split_runs_covers:
  "x \<in> set s \<Longrightarrow> \<not> p x \<Longrightarrow> \<exists>t\<in>set (split_runs p b s). x \<in> set t"
proof (induction s arbitrary: b)
  case Nil
  then show ?case by simp
next
  case (Cons a s)
  obtain u us where u: "split_runs p False s = u # us"
    using split_runs_not_Nil [of p False s] by (cases "split_runs p False s") auto
  show ?case
  proof (cases "p a")
    case True
    have "x \<noteq> a"
      using True Cons.prems(2) by blast
    then have xs: "x \<in> set s"
      using Cons.prems(1) by simp
    obtain t where t: "t \<in> set (split_runs p True s)" "x \<in> set t"
      using Cons.IH [OF xs Cons.prems(2), of True] by blast
    show ?thesis
    proof (cases b)
      case b: True
      have "split_runs p b (a # s) = split_runs p True s"
        using True b by simp
      with t show ?thesis by (simp only:) (rule bexI)
    next
      case b: False
      have "split_runs p b (a # s) = [] # split_runs p True s"
        using True b by simp
      moreover have "t \<in> set ([] # split_runs p True s)"
        using t(1) by simp
      ultimately show ?thesis
        using t(2) by (simp only:) (rule bexI)
    qed
  next
    case False
    then have eq: "split_runs p b (a # s) = (a # u) # us"
      using u by simp
    show ?thesis
    proof (cases "x = a")
      case True
      then have "x \<in> set (a # u)" by simp
      moreover have "a # u \<in> set ((a # u) # us)" by simp
      ultimately have "\<exists>t\<in>set ((a # u) # us). x \<in> set t" by (rule bexI)
      then show ?thesis by (simp only: eq)
    next
      case ne: False
      then have xs: "x \<in> set s"
        using Cons.prems(1) by simp
      have "\<exists>t\<in>set (split_runs p False s). x \<in> set t"
        using xs Cons.prems(2) by (rule Cons.IH)
      then obtain t where t: "t \<in> set (u # us)" "x \<in> set t"
        unfolding u by (rule bexE)
      have "\<exists>t\<in>set ((a # u) # us). x \<in> set t"
      proof (cases "t = u")
        case True
        then have "x \<in> set (a # u)" using t(2) by simp
        moreover have "a # u \<in> set ((a # u) # us)" by simp
        ultimately show ?thesis by (rule bexI)
      next
        case False
        then have "t \<in> set ((a # u) # us)"
          using t(1) by simp
        with t(2) show ?thesis by (rule bexI)
      qed
      then show ?thesis by (simp only: eq)
    qed
  qed
qed

lemma join_not_Nil: "t \<in> set ts \<Longrightarrow> t \<noteq> [] \<Longrightarrow> join sep ts \<noteq> []"
  by (induction sep ts rule: join.induct) auto

lemma normalize_whitespace_not_Nil:
  assumes "x \<in> set w" and "\<not> isspace x"
  shows "normalize_whitespace w \<noteq> []"
proof -
  obtain t where t: "t \<in> set (split_runs isspace False w)" "x \<in> set t"
    using split_runs_covers [of x w isspace False] assms by blast
  then have "t \<in> set (str_split w)" "t \<noteq> []"
    by (auto simp: str_split_def re_split_def)
  then show ?thesis
    unfolding normalize_whitespace_def by (rule join_not_Nil)
qed

lemma set_strip: "set (strip chars t) \<subseteq> set t"
proof -
  have "set (strip chars t) = set (dropWhile (\<lambda>c. c \<in> set chars)
          (rev (dropWhile (\<lambda>c. c \<in> set chars) t)))"
    by (simp add: strip_def)
  also have "\<dots> \<subseteq> set (rev (dropWhile (\<lambda>c. c \<in> set chars) t))"
    by (meson set_dropWhileD subsetI)
  also have "\<dots> \<subseteq> set t"
    using set_dropWhileD by fastforce
  finally show ?thesis .
qed

lemma strip_kept_char:
  assumes "strip chars t \<noteq> []"
  shows "\<exists>x\<in>set (strip chars t). x \<notin> set chars"
proof -
  let ?d = "dropWhile (\<lambda>c. c \<in> set chars) (rev (dropWhile (\<lambda>c. c \<in> set chars) t))"
  from assms have ne: "?d \<noteq> []" by (simp add: strip_def)
  then have "hd ?d \<notin> set chars"
    using hd_dropWhile [of "\<lambda>c. c \<in> set chars"] by blast
  moreover have "hd ?d \<in> set (strip chars t)"
    using ne by (simp add: strip_def)
  ultimately show ?thesis by blast
qed

text \<open>
  The scan hands \<open>split_multi_value\<close> only strings that have been through
  \<open>normalize_whitespace\<close>, in which the space is the only whitespace left. On those no
  fragment is empty.
\<close>

lemma split_multi_value_normalized:
  "[] \<notin> set (split_multi_value (normalize_whitespace s))"
proof
  let ?v = "normalize_whitespace s"
  let ?parts = "re_split (\<lambda>c. c = CHR '';'' \<or> c = CHR 0x0A) ?v"
  assume m: "[] \<in> set (split_multi_value ?v)"
  then have "?v \<noteq> []"
    by (auto simp: split_multi_value_def)
  then have "split_multi_value ?v =
               map (\<lambda>part. normalize_whitespace (strip '' ;'' part))
                 (filter (\<lambda>part. strip '' ;'' part \<noteq> []) ?parts)"
    by (simp add: split_multi_value_def)
  with m have "[] \<in> (\<lambda>part. normalize_whitespace (strip '' ;'' part)) `
                  {part \<in> set ?parts. strip '' ;'' part \<noteq> []}"
    by (simp only: set_map set_filter)
  then obtain part where "part \<in> {part \<in> set ?parts. strip '' ;'' part \<noteq> []}"
    and "[] = normalize_whitespace (strip '' ;'' part)"
    by (rule imageE)
  then have part: "part \<in> set ?parts"
    and ne: "strip '' ;'' part \<noteq> []"
    and e: "normalize_whitespace (strip '' ;'' part) = []"
    by simp_all
  from ne obtain x where x: "x \<in> set (strip '' ;'' part)" "x \<notin> set '' ;''"
    using strip_kept_char by blast
  have "set (strip '' ;'' part) \<subseteq> set part"
    by (rule set_strip)
  with x(1) have "x \<in> set part" by blast
  moreover have "set part \<subseteq> set ?v"
    using part unfolding re_split_def by (rule split_runs_subset)
  ultimately have "x \<in> set ?v" by blast
  then have "x = CHR '' '' \<or> \<not> isspace x"
    by (rule normalize_whitespace_chars)
  with x(2) have "\<not> isspace x" by simp
  with x(1) have "normalize_whitespace (strip '' ;'' part) \<noteq> []"
    by (rule normalize_whitespace_not_Nil)
  with e show False by simp
qed

end
